theory Spec2Isabelle
  imports Complex_Main
begin

section \<open>Python values used by the scraper\<close>

text \<open>
  A Python \<open>str\<close> is modelled as a \<open>string\<close>; one \<open>char\<close> stands for one character
  (a code point below 256), so \<open>length\<close> is Python's \<open>len\<close> and the empty list is the
  only falsy string. The string methods the source calls are written out below for
  this character range.
\<close>

definition isspace :: "char \<Rightarrow> bool" where
  \<comment> \<open>the characters \<open>str.strip()\<close> and \<open>str.split()\<close> treat as whitespace\<close>
  "isspace c = (of_char c \<in> {9::nat, 10, 11, 12, 13, 28, 29, 30, 31, 32, 133, 160})"

definition strip :: "string \<Rightarrow> string" where
  "strip s = rev (dropWhile isspace (rev (dropWhile isspace s)))"

fun split_acc :: "string \<Rightarrow> string \<Rightarrow> string list" where
  "split_acc w [] = (if w = [] then [] else [w])"
| "split_acc w (c # cs) =
     (if isspace c then (if w = [] then split_acc [] cs else w # split_acc [] cs)
      else split_acc (w @ [c]) cs)"

definition split :: "string \<Rightarrow> string list" where
  \<comment> \<open>\<open>text.split()\<close>: the maximal runs of non-whitespace characters\<close>
  "split s = split_acc [] s"

fun join :: "string \<Rightarrow> string list \<Rightarrow> string" where
  "join sep [] = []"
| "join sep [w] = w"
| "join sep (w # ws) = w @ sep @ join sep ws"

definition lower_char :: "char \<Rightarrow> char" where
  "lower_char c =
     (let n = (of_char c :: nat) in
      if (65 \<le> n \<and> n \<le> 90) \<or> (192 \<le> n \<and> n \<le> 222 \<and> n \<noteq> 215)
      then char_of (n + 32) else c)"

definition lower :: "string \<Rightarrow> string" where
  "lower s = map lower_char s"

definition startswith :: "string \<Rightarrow> string \<Rightarrow> bool" where
  \<comment> \<open>\<open>s.startswith(p)\<close>\<close>
  "startswith p s = (take (length p) s = p)"

fun startswith_any :: "string list \<Rightarrow> string \<Rightarrow> bool" where
  \<comment> \<open>\<open>s.startswith((p1, p2, ...))\<close> with a tuple of prefixes\<close>
  "startswith_any [] s = False"
| "startswith_any (p # ps) s = (startswith p s \<or> startswith_any ps s)"

fun py_in :: "string \<Rightarrow> string \<Rightarrow> bool" where
  \<comment> \<open>\<open>sub in s\<close> on strings: \<open>sub\<close> occurs as a contiguous substring\<close>
  "py_in sub [] = (sub = [])"
| "py_in sub (c # cs) = (startswith sub (c # cs) \<or> py_in sub cs)"

datatype exn =
    Timeout | TooManyRedirects | HTTPError | RequestException
  | IOError | ValueError | IndexError | ZeroDivisionError | OtherException

text \<open>
  \<open>exn\<close> lists the exception classes the source names or can meet (all of them
  subclasses of \<open>Exception\<close>). The requests exceptions derive from
  \<open>RequestException\<close>, which itself derives from \<open>IOError\<close>.
\<close>

definition isinstance_RequestException :: "exn \<Rightarrow> bool" where
  "isinstance_RequestException e = (e \<in> {Timeout, TooManyRedirects, HTTPError, RequestException})"

definition isinstance_IOError :: "exn \<Rightarrow> bool" where
  "isinstance_IOError e = (e = IOError \<or> isinstance_RequestException e)"

section \<open>The external collaborators\<close>

record response =
  raise_for_status :: "exn option"  \<comment> \<open>what calling the method does: \<open>None\<close> returns, \<open>Some e\<close> raises\<close>
  content_type_header :: "string option"  \<comment> \<open>\<open>headers.get('content-type')\<close>\<close>
  response_text :: string

record parse_result =
  scheme :: string
  netloc :: string
  path :: string
  params :: string
  query :: string
  fragment :: string

text \<open>
  The libraries and the outside world are parameters of the model: requests
  (\<open>session_get\<close>), readability and BeautifulSoup (\<open>readable_text\<close> is lines 67 to 74 of
  the source up to \<open>soup.get_text\<close>; \<open>anchors_href\<close> is the parse of line 86, \<open>Inl e\<close>
  when it raises \<open>e\<close>, followed by \<open>a_tag['href']\<close> for every tag of
  \<open>find_all('a', href=True)\<close>, in document order),
  urllib (\<open>urlparse\<close> and \<open>urljoin\<close> answer \<open>None\<close> where they raise \<open>ValueError\<close>,
  \<open>geturl\<close> is \<open>ParseResult.geturl\<close>), the iteration order of a Python set
  (\<open>list_of_set\<close> receives the elements in insertion order and returns them in the order
  \<open>list(links)\<close> yields them), and the file system (\<open>open_raises n\<close> is what the \<open>n\<close>-th
  \<open>open(output_file, 'w')\<close> of the run raises, \<open>write_raises k\<close> what writing the \<open>k\<close>-th
  line raises).
\<close>

record env =
  session_get :: "string \<Rightarrow> exn + response"
  readable_text :: "string \<Rightarrow> exn + string"
  anchors_href :: "string \<Rightarrow> exn + string list"
  urlparse :: "string \<Rightarrow> parse_result option"
  urljoin :: "string \<Rightarrow> string \<Rightarrow> string option"
  geturl :: "parse_result \<Rightarrow> string"
  list_of_set :: "string list \<Rightarrow> string list"
  open_raises :: "nat \<Rightarrow> exn option"
  write_raises :: "nat \<Rightarrow> exn option"

section \<open>The helper functions\<close>

definition fetch_except :: "exn \<Rightarrow> string option" where
  \<comment> \<open>the four handlers of \<open>fetch_html\<close>, in the order of the source\<close>
  "fetch_except e =
     (if e = Timeout then None
      else if e = TooManyRedirects then None
      else if isinstance_RequestException e then None
      else None)"

definition fetch_html :: "env \<Rightarrow> string \<Rightarrow> string option" where
  "fetch_html env url =
     (case session_get env url of
        Inl e \<Rightarrow> fetch_except e
      | Inr response \<Rightarrow>
          (case raise_for_status response of
             Some e \<Rightarrow> fetch_except e
           | None \<Rightarrow>
               (let content_type =
                      lower (case content_type_header response of None \<Rightarrow> [] | Some v \<Rightarrow> v)
                in if \<not> py_in ''html'' content_type then None
                   else Some (response_text response))))"

definition clean_html_text :: "env \<Rightarrow> string \<Rightarrow> string option" where
  "clean_html_text env html_content =
     (if html_content = [] then None
      else case readable_text env html_content of
             Inl e \<Rightarrow> None
           | Inr text0 \<Rightarrow> Some (join '' '' (split text0)))"

definition set_add :: "string \<Rightarrow> string list \<Rightarrow> string list" where
  \<comment> \<open>\<open>links.add(x)\<close>; the set is kept as the list of its elements in insertion order\<close>
  "set_add x links = (if x \<in> set links then links else links @ [x])"

definition link_of_href :: "env \<Rightarrow> string \<Rightarrow> string \<Rightarrow> string \<Rightarrow> string option" where
  \<comment> \<open>the body of the \<open>for a_tag\<close> loop: the URL added for one href, if any\<close>
  "link_of_href env base_url base_domain a_href =
     (let href = strip a_href in
      if href \<noteq> [] \<and> \<not> startswith_any [''#'', ''mailto:'', ''tel:'', ''javascript:''] href then
        (case urljoin env base_url href of
           None \<Rightarrow> None
         | Some absolute_url \<Rightarrow>
             (case urlparse env absolute_url of
                None \<Rightarrow> None
              | Some parsed_url \<Rightarrow>
                  if scheme parsed_url \<in> set [''http'', ''https''] \<and> netloc parsed_url = base_domain
                  then Some (geturl env (parsed_url\<lparr>fragment := []\<rparr>))
                  else None))
      else None)"

fun collect_links :: "env \<Rightarrow> string \<Rightarrow> string \<Rightarrow> string list \<Rightarrow> string list \<Rightarrow> string list" where
  "collect_links env base_url base_domain [] links = links"
| "collect_links env base_url base_domain (a_href # rest) links =
     collect_links env base_url base_domain rest
       (case link_of_href env base_url base_domain a_href of
          None \<Rightarrow> links
        | Some clean_url \<Rightarrow> set_add clean_url links)"

definition find_internal_links :: "env \<Rightarrow> string \<Rightarrow> string \<Rightarrow> exn + string list" where
  "find_internal_links env html_content base_url =
     (if html_content = [] then Inr (list_of_set env [])
      else case anchors_href env html_content of
             Inl e \<Rightarrow> Inl e
           | Inr hrefs \<Rightarrow>
               (case urlparse env base_url of
                  None \<Rightarrow> Inr (list_of_set env [])
                | Some parsed_base \<Rightarrow>
                    if netloc parsed_base = [] then Inr (list_of_set env [])
                    else Inr (list_of_set env
                           (collect_links env base_url (netloc parsed_base) hrefs []))))"

section \<open>The crawl\<close>

record config =
  start_url :: string
  max_pages :: int
  politeness_delay :: real
  min_text_length :: int
  output_file :: string

record page_record =
  \<comment> \<open>the dict \<open>{'url': current_url, 'text': cleaned_text}\<close>\<close>
  rec_url :: string
  rec_text :: string

datatype event =
    Enqueue string  \<comment> \<open>a URL put into the deque (its construction and \<open>queue.append\<close>)\<close>
  | Open_w string  \<comment> \<open>\<open>open(path, 'w')\<close> succeeded: the file is truncated\<close>
  | Get string  \<comment> \<open>\<open>fetch_html\<close> called on a dequeued URL\<close>
  | Sleep real
  | Write_line string

text \<open>
  The state holds the local variables of \<open>crawl_website_streamlit\<close>, the file system
  (path to contents) and, as a history variable, the \<open>trace\<close> of the actions done so far.
  Logging and the Streamlit placeholders are left out: nothing read by the crawl depends
  on them.
\<close>

record crawl_state =
  queue :: "string list"
  visited_urls :: "string set"
  pages_scraped_count :: nat
  data_saved_count :: nat
  all_results :: "page_record list"
  crawl_error_occurred :: bool
  write_error :: bool
  files :: "string \<rightharpoonup> string"
  trace :: "event list"

definition init_state :: "string \<Rightarrow> (string \<rightharpoonup> string) \<Rightarrow> crawl_state" where
  "init_state start fs =
     \<lparr>queue = [start], visited_urls = {start}, pages_scraped_count = 0,
      data_saved_count = 0, all_results = [], crawl_error_occurred = False,
      write_error = False, files = fs, trace = [Enqueue start]\<rparr>"

definition add_link :: "string \<Rightarrow> crawl_state \<Rightarrow> crawl_state" where
  "add_link link s =
     (if link \<notin> visited_urls s
      then s\<lparr>visited_urls := insert link (visited_urls s),
             queue := queue s @ [link],
             trace := trace s @ [Enqueue link]\<rparr>
      else s)"

fun add_links :: "string list \<Rightarrow> crawl_state \<Rightarrow> crawl_state" where
  \<comment> \<open>\<open>for link in internal_links\<close>\<close>
  "add_links [] s = s"
| "add_links (link # links) s = add_links links (add_link link s)"

definition scrape_page :: "env \<Rightarrow> config \<Rightarrow> string \<Rightarrow> crawl_state \<Rightarrow> crawl_state \<times> exn option" where
  \<comment> \<open>lines 154 to 180: the state afterwards, and the exception that escaped, if any\<close>
  "scrape_page env cfg current_url s =
     (case fetch_html env current_url of
        None \<Rightarrow> (s, None)
      | Some html \<Rightarrow>
          if html = [] then (s, None)
          else
            (case clean_html_text env html of
               None \<Rightarrow> (s, None)
             | Some cleaned_text \<Rightarrow>
                 if cleaned_text \<noteq> [] \<and> int (length cleaned_text) \<ge> min_text_length cfg then
                   (let s1 = s\<lparr>all_results := all_results s @
                                   [\<lparr>rec_url = current_url, rec_text = cleaned_text\<rparr>],
                                 data_saved_count := Suc (data_saved_count s)\<rparr>
                    in case find_internal_links env html current_url of
                         Inl e \<Rightarrow> (s1, Some e)
                       | Inr internal_links \<Rightarrow> (add_links internal_links s1, None))
                 else (s, None)))"

definition py_sleep :: "real \<Rightarrow> crawl_state \<Rightarrow> crawl_state \<times> exn option" where
  \<comment> \<open>\<open>time.sleep\<close> raises \<open>ValueError\<close> on a negative length\<close>
  "py_sleep d s = (if d < 0 then (s, Some ValueError) else (s\<lparr>trace := trace s @ [Sleep d]\<rparr>, None))"

definition iteration :: "env \<Rightarrow> config \<Rightarrow> crawl_state \<Rightarrow> crawl_state \<times> exn option" where
  \<comment> \<open>one pass through the body of the \<open>while\<close> loop, lines 147 to 185\<close>
  "iteration env cfg s =
     (case queue s of
        [] \<Rightarrow> (s, Some IndexError)
      | current_url # rest \<Rightarrow>
          (let s1 = s\<lparr>queue := rest, pages_scraped_count := Suc (pages_scraped_count s)\<rparr> in
           if max_pages cfg = 0 then (s1, Some ZeroDivisionError)
           else
             (case scrape_page env cfg current_url (s1\<lparr>trace := trace s1 @ [Get current_url]\<rparr>) of
                (s2, Some e) \<Rightarrow> (s2, Some e)
              | (s2, None) \<Rightarrow>
                  if queue s2 \<noteq> [] \<and> int (pages_scraped_count s2) < max_pages cfg
                  then py_sleep (politeness_delay cfg) s2
                  else (s2, None))))"

lemma add_link_count [simp]: "pages_scraped_count (add_link l s) = pages_scraped_count s"
  by (simp add: add_link_def)

lemma add_links_count [simp]: "pages_scraped_count (add_links ls s) = pages_scraped_count s"
  by (induction ls arbitrary: s) simp_all

lemma scrape_page_count [simp]:
  "pages_scraped_count (fst (scrape_page env cfg u s)) = pages_scraped_count s"
  by (simp add: scrape_page_def Let_def split: option.splits sum.splits)

lemma iteration_count:
  assumes "queue s \<noteq> []"
  shows "pages_scraped_count (fst (iteration env cfg s)) = Suc (pages_scraped_count s)"
proof -
  obtain u rest where q: "queue s = u # rest"
    using assms by (cases "queue s") auto
  define s1 where "s1 = s\<lparr>queue := rest, pages_scraped_count := Suc (pages_scraped_count s),
    trace := trace s @ [Get u]\<rparr>"
  have c: "pages_scraped_count (fst (scrape_page env cfg u s1)) = Suc (pages_scraped_count s)"
    by (simp add: s1_def)
  obtain s2 ex where sp: "scrape_page env cfg u s1 = (s2, ex)"
    by (cases "scrape_page env cfg u s1")
  with c have c2: "pages_scraped_count s2 = Suc (pages_scraped_count s)"
    by simp
  show ?thesis
    using sp c2 q
    by (simp add: iteration_def Let_def s1_def py_sleep_def split: option.splits)
qed

function crawl_loop :: "env \<Rightarrow> config \<Rightarrow> crawl_state \<Rightarrow> crawl_state \<times> exn option" where
  \<comment> \<open>\<open>while queue and pages_scraped_count < max_pages\<close>, left by an exception or by the test\<close>
  "crawl_loop env cfg s =
     (if queue s \<noteq> [] \<and> int (pages_scraped_count s) < max_pages cfg then
        (case iteration env cfg s of
           (s', Some e) \<Rightarrow> (s', Some e)
         | (s', None) \<Rightarrow> crawl_loop env cfg s')
      else (s, None))"
  by pat_completeness auto

termination
proof (relation "measure (\<lambda>(env, cfg, s). nat (max_pages cfg - int (pages_scraped_count s)))")
  show "wf (measure (\<lambda>(env, cfg, s). nat (max_pages cfg - int (pages_scraped_count s))))"
    by simp
next
  fix env :: env and cfg :: config and s x :: crawl_state and y :: "exn option"
  assume g: "queue s \<noteq> [] \<and> int (pages_scraped_count s) < max_pages cfg"
    and it: "(x, y) = iteration env cfg s"
  have "pages_scraped_count x = Suc (pages_scraped_count s)"
    using iteration_count [of s env cfg] g it [symmetric] by simp
  with g show "((env, cfg, x), (env, cfg, s))
      \<in> measure (\<lambda>(env, cfg, s). nat (max_pages cfg - int (pages_scraped_count s)))"
    by simp
qed

declare crawl_loop.simps [simp del]

definition py_open_w :: "env \<Rightarrow> nat \<Rightarrow> string \<Rightarrow> crawl_state \<Rightarrow> crawl_state \<times> exn option" where
  \<comment> \<open>the \<open>n\<close>-th \<open>open(path, 'w', encoding='utf-8')\<close>: it raises, or the file is there and empty\<close>
  "py_open_w env n p s =
     (case open_raises env n of
        Some e \<Rightarrow> (s, Some e)
      | None \<Rightarrow> (s\<lparr>files := (files s)(p \<mapsto> []), trace := trace s @ [Open_w p]\<rparr>, None))"

definition hex_digit :: "nat \<Rightarrow> char" where
  "hex_digit n = (if n < 10 then char_of (48 + n) else char_of (87 + n))"

definition json_escape_char :: "char \<Rightarrow> string" where
  \<comment> \<open>\<open>json.dumps(..., ensure_ascii=False)\<close>: only the quote, the backslash and the control
      characters below U+0020 are escaped\<close>
  "json_escape_char c =
     (if c = CHR 0x5C then [CHR 0x5C, CHR 0x5C]
      else if c = CHR 0x22 then [CHR 0x5C, CHR 0x22]
      else if c = CHR 0x08 then [CHR 0x5C, CHR ''b'']
      else if c = CHR 0x0C then [CHR 0x5C, CHR ''f'']
      else if c = CHR 0x0A then [CHR 0x5C, CHR ''n'']
      else if c = CHR 0x0D then [CHR 0x5C, CHR ''r'']
      else if c = CHR 0x09 then [CHR 0x5C, CHR ''t'']
      else if (of_char c :: nat) < 32
        then [CHR 0x5C] @ ''u00'' @ [hex_digit (of_char c div 16), hex_digit (of_char c mod 16)]
      else [c])"

definition json_string :: "string \<Rightarrow> string" where
  "json_string s = [CHR 0x22] @ concat (map json_escape_char s) @ [CHR 0x22]"

definition json_dumps :: "page_record \<Rightarrow> string" where
  "json_dumps item =
     ''{'' @ json_string ''url'' @ '': '' @ json_string (rec_url item) @ '', '' @
     json_string ''text'' @ '': '' @ json_string (rec_text item) @ ''}''"

fun write_items :: "env \<Rightarrow> string \<Rightarrow> nat \<Rightarrow> page_record list \<Rightarrow> crawl_state \<Rightarrow> crawl_state \<times> exn option" where
  \<comment> \<open>\<open>for item in all_results: f_out.write(json.dumps(item, ensure_ascii=False) + '\n')\<close>\<close>
  "write_items env p k [] s = (s, None)"
| "write_items env p k (item # items) s =
     (case write_raises env k of
        Some e \<Rightarrow> (s, Some e)
      | None \<Rightarrow>
          (let line = json_dumps item @ [CHR 0x0A] in
           write_items env p (Suc k) items
             (s\<lparr>files := (files s)(p \<mapsto> (case files s p of None \<Rightarrow> [] | Some c \<Rightarrow> c) @ line),
                trace := trace s @ [Write_line line]\<rparr>)))"

definition write_results :: "env \<Rightarrow> config \<Rightarrow> crawl_state \<Rightarrow> crawl_state \<times> exn option" where
  \<comment> \<open>the \<open>with open(...)\<close> block of lines 208 to 210\<close>
  "write_results env cfg s =
     (case py_open_w env 1 (output_file cfg) s of
        (s', Some e) \<Rightarrow> (s', Some e)
      | (s', None) \<Rightarrow> write_items env (output_file cfg) 0 (all_results s') s')"

definition finalize :: "env \<Rightarrow> config \<Rightarrow> crawl_state \<Rightarrow> (exn + string option) \<times> crawl_state" where
  \<comment> \<open>lines 204 to 246: the final write, guarded by \<open>crawl_error_occurred\<close>, and the return value\<close>
  "finalize env cfg s =
     (if \<not> crawl_error_occurred s then
        (case write_results env cfg s of
           (s', None) \<Rightarrow> (Inr (Some (output_file cfg)), s')
         | (s', Some e) \<Rightarrow>
             if isinstance_IOError e then (Inr None, s'\<lparr>write_error := True\<rparr>)
             else (Inl e, s'))
      else (Inr None, s))"

definition crawl_website_streamlit ::
  "env \<Rightarrow> config \<Rightarrow> (string \<rightharpoonup> string) \<Rightarrow> (exn + string option) \<times> crawl_state" where
  \<comment> \<open>the result is what the call returns (\<open>Inr\<close>) or raises (\<open>Inl\<close>), with the state it leaves\<close>
  "crawl_website_streamlit env cfg fs =
     (let s0 = init_state (start_url cfg) fs in
      case py_open_w env 0 (output_file cfg) s0 of
        (s1, Some e) \<Rightarrow>
          if isinstance_IOError e then (Inr None, s1\<lparr>crawl_error_occurred := True\<rparr>)
          else (Inl e, s1)
      | (s1, None) \<Rightarrow>
          (case crawl_loop env cfg s1 of
             (s2, Some e) \<Rightarrow> finalize env cfg (s2\<lparr>crawl_error_occurred := True\<rparr>)
           | (s2, None) \<Rightarrow> finalize env cfg s2))"



section \<open>Reading the trace\<close>

primrec get_of :: "event \<Rightarrow> string list" where
  "get_of (Enqueue u) = []"
| "get_of (Open_w p) = []"
| "get_of (Get u) = [u]"
| "get_of (Sleep d) = []"
| "get_of (Write_line l) = []"

primrec enqueue_of :: "event \<Rightarrow> string list" where
  "enqueue_of (Enqueue u) = [u]"
| "enqueue_of (Open_w p) = []"
| "enqueue_of (Get u) = []"
| "enqueue_of (Sleep d) = []"
| "enqueue_of (Write_line l) = []"

definition fetched :: "event list \<Rightarrow> string list" where
  \<comment> \<open>the URLs dequeued and fetched, in order\<close>
  "fetched t = concat (map get_of t)"

definition enqueued :: "event list \<Rightarrow> string list" where
  \<comment> \<open>the URLs put into the frontier, in order, the seed first\<close>
  "enqueued t = concat (map enqueue_of t)"

section \<open>Definitions for the statements\<close>

text \<open>
  \<open>unseen seen ls\<close> are the links of \<open>ls\<close> that the merge loop of lines 167 to 171 appends
  to the queue when \<open>seen\<close> is the visited set: those not in \<open>seen\<close>, once each, in the
  order of \<open>ls\<close>.
\<close>

fun unseen :: "string set \<Rightarrow> string list \<Rightarrow> string list" where
  "unseen seen [] = []"
| "unseen seen (l # ls) = (if l \<in> seen then unseen seen ls else l # unseen (insert l seen) ls)"

text \<open>
  \<open>page_links env cfg u\<close> is the list of links that fetching \<open>u\<close> hands to the merge loop:
  the result of \<open>find_internal_links\<close> when the page is fetched, has text and passes the
  length test, and no link otherwise. It is the site graph as the crawl sees it.
\<close>

definition page_links :: "env \<Rightarrow> config \<Rightarrow> string \<Rightarrow> string list" where
  "page_links env cfg u =
     (case fetch_html env u of
        None \<Rightarrow> []
      | Some html \<Rightarrow>
          if html = [] then []
          else
            (case clean_html_text env html of
               None \<Rightarrow> []
             | Some cleaned_text \<Rightarrow>
                 if cleaned_text \<noteq> [] \<and> int (length cleaned_text) \<ge> min_text_length cfg then
                   (case find_internal_links env html u of Inl e \<Rightarrow> [] | Inr ls \<Rightarrow> ls)
                 else []))"

definition anchor_links :: "env \<Rightarrow> config \<Rightarrow> string \<Rightarrow> string list" where
  \<comment> \<open>the links of a page in the order in which their anchors are first encountered in the
      document, which is the order in which \<open>links.add\<close> inserts them\<close>
  "anchor_links env cfg u = page_links (env\<lparr>list_of_set := (\<lambda>links. links)\<rparr>) cfg u"

fun next_level :: "(string \<Rightarrow> string list) \<Rightarrow> string set \<Rightarrow> string list \<Rightarrow> string list" where
  \<comment> \<open>the URLs first discovered from the pages of one level, in discovery order\<close>
  "next_level links seen [] = []"
| "next_level links seen (u # us) =
     unseen seen (links u) @ next_level links (seen \<union> set (links u)) us"

function bfs_order ::
  "(string \<Rightarrow> string list) \<Rightarrow> nat \<Rightarrow> string set \<Rightarrow> string list \<Rightarrow> string list" where
  \<comment> \<open>breadth-first traversal, level by level, cut after \<open>n\<close> pages\<close>
  "bfs_order links n seen level =
     (if n = 0 \<or> level = [] then []
      else take n level @
           bfs_order links (n - length level) (seen \<union> set (next_level links seen level))
             (next_level links seen level))"
  by pat_completeness auto

termination
  by (relation "measure (\<lambda>(links, n, seen, level). n)") auto

declare bfs_order.simps [simp del]

fun queue_order ::
  "(string \<Rightarrow> string list) \<Rightarrow> nat \<Rightarrow> string set \<Rightarrow> string list \<Rightarrow> string list" where
  \<comment> \<open>the order in which a first-in-first-out queue is emptied, cut after \<open>n\<close> pages\<close>
  "queue_order links 0 seen q = []"
| "queue_order links (Suc n) seen [] = []"
| "queue_order links (Suc n) seen (u # q) =
     u # queue_order links n (seen \<union> set (links u)) (q @ unseen seen (links u))"

definition cleared_state :: "config \<Rightarrow> (string \<rightharpoonup> string) \<Rightarrow> crawl_state" where
  \<comment> \<open>the state in which the loop starts: the output file has just been truncated\<close>
  "cleared_state cfg fs =
     (init_state (start_url cfg) fs)
       \<lparr>files := fs(output_file cfg \<mapsto> []),
        trace := [Enqueue (start_url cfg), Open_w (output_file cfg)]\<rparr>"

definition frontier_inv :: "crawl_state \<Rightarrow> bool" where
  "frontier_inv s =
     (distinct (enqueued (trace s)) \<and> set (enqueued (trace s)) = visited_urls s \<and>
      length (fetched (trace s)) = pages_scraped_count s)"

definition same_crawl :: "crawl_state \<Rightarrow> crawl_state \<Rightarrow> bool" where
  \<comment> \<open>two states agree on the crawl itself: they differ at most in the files, the flags and
      the file actions of the trace\<close>
  "same_crawl s t =
     (queue s = queue t \<and> visited_urls s = visited_urls t \<and>
      pages_scraped_count s = pages_scraped_count t \<and>
      data_saved_count s = data_saved_count t \<and> all_results s = all_results t \<and>
      fetched (trace s) = fetched (trace t) \<and> enqueued (trace s) = enqueued (trace t))"



definition py_set_faithful :: "env \<Rightarrow> bool" where
  \<comment> \<open>\<open>list(links)\<close> yields every element of the set once, in some order\<close>
  "py_set_faithful env =
     (\<forall>xs. distinct xs \<longrightarrow> distinct (list_of_set env xs) \<and> set (list_of_set env xs) = set xs)"



section \<open>A small site\<close>

text \<open>
  A site of four pages on the host \<open>h\<close>, used to run the crawl on concrete inputs. Its
  tables answer as the libraries do on the URLs that occur: the home page links to
  \<open>/a\<close> (twice, once with a fragment), \<open>/b\<close>, itself and another host; \<open>/b\<close> times
  out; the text of \<open>/c\<close> is blank.
\<close>

definition site_get :: "string \<Rightarrow> exn + response" where
  "site_get u =
     (if u = ''http://h/'' \<or> u = ''http://h/#top'' then
        Inr \<lparr>raise_for_status = None, content_type_header = Some ''text/HTML; charset=utf-8'',
             response_text = ''<home>''\<rparr>
      else if u = ''http://h/a'' then
        Inr \<lparr>raise_for_status = None, content_type_header = Some ''text/html'',
             response_text = ''<a>''\<rparr>
      else if u = ''http://h/b'' then Inl Timeout
      else if u = ''http://h/c'' then
        Inr \<lparr>raise_for_status = None, content_type_header = Some ''text/html'',
             response_text = ''<c>''\<rparr>
      else if u = ''http://h/d.pdf'' then
        Inr \<lparr>raise_for_status = None, content_type_header = Some ''application/pdf'',
             response_text = ''%PDF''\<rparr>
      else
        Inr \<lparr>raise_for_status = Some HTTPError, content_type_header = Some ''text/html'',
             response_text = ''Not Found''\<rparr>)"

definition site_text :: "string \<Rightarrow> exn + string" where
  "site_text html =
     (if html = ''<home>'' then Inr ''Home  page''
      else if html = ''<a>'' then Inr ''Page A''
      else if html = ''<c>'' then Inr ''  ''
      else Inl OtherException)"

definition site_anchors :: "string \<Rightarrow> exn + string list" where
  "site_anchors html =
     (if html = ''<home>'' then
        Inr [''/a'', '' /b '', ''#top'', ''http://other/c'', ''/'', ''/a#s'', ''mailto:x@h'']
      else if html = ''<a>'' then Inr [''/b'', ''/c'']
      else if html = ''<c>'' then Inr [''/d.pdf'']
      else Inr [])"

definition site_urlparse :: "string \<Rightarrow> parse_result option" where
  "site_urlparse u =
     (let r = \<lparr>scheme = ''http'', netloc = ''h'', path = ''/'', params = [], query = [],
               fragment = []\<rparr> in
      if u = ''http://h/'' then Some r
      else if u = ''http://h/#top'' then Some (r\<lparr>fragment := ''top''\<rparr>)
      else if u = ''http://h/a'' then Some (r\<lparr>path := ''/a''\<rparr>)
      else if u = ''http://h/a#s'' then Some (r\<lparr>path := ''/a'', fragment := ''s''\<rparr>)
      else if u = ''http://h/b'' then Some (r\<lparr>path := ''/b''\<rparr>)
      else if u = ''http://h/c'' then Some (r\<lparr>path := ''/c''\<rparr>)
      else if u = ''http://h/d.pdf'' then Some (r\<lparr>path := ''/d.pdf''\<rparr>)
      else if u = ''http://other/c'' then Some (r\<lparr>netloc := ''other'', path := ''/c''\<rparr>)
      else if u = ''h/a'' then Some (r\<lparr>scheme := [], netloc := [], path := ''h/a''\<rparr>)
      else None)"

definition site_urljoin :: "string \<Rightarrow> string \<Rightarrow> string option" where
  "site_urljoin base href =
     (if href = ''/'' then Some ''http://h/''
      else if href = ''/a'' then Some ''http://h/a''
      else if href = ''/a#s'' then Some ''http://h/a#s''
      else if href = ''/b'' then Some ''http://h/b''
      else if href = ''/c'' then Some ''http://h/c''
      else if href = ''/d.pdf'' then Some ''http://h/d.pdf''
      else if href = ''http://other/c'' then Some ''http://other/c''
      else None)"

definition site_geturl :: "parse_result \<Rightarrow> string" where
  "site_geturl p =
     scheme p @ ''://'' @ netloc p @ path p @ (if fragment p = [] then [] else ''#'' @ fragment p)"

definition site :: env where
  "site =
     \<lparr>session_get = site_get, readable_text = site_text, anchors_href = site_anchors,
      urlparse = site_urlparse, urljoin = site_urljoin, geturl = site_geturl,
      list_of_set = (\<lambda>links. links), open_raises = (\<lambda>n. None),
      write_raises = (\<lambda>k. None)\<rparr>"

definition site_config :: config where
  "site_config =
     \<lparr>start_url = ''http://h/'', max_pages = 10, politeness_delay = 2, min_text_length = 5,
      output_file = ''out.jsonl''\<rparr>"

definition site_broken :: env where
  \<comment> \<open>the small site, with a parser that raises on the page \<open>/a\<close>\<close>
  "site_broken =
     site\<lparr>anchors_href := (\<lambda>html. if html = ''<a>'' then Inl OtherException else site_anchors html)\<rparr>"


definition site_rev :: env where
  \<comment> \<open>the small site, run by a Python whose sets iterate in the reverse of insertion order
      (the language fixes no order; CPython's follows the hashes of the strings)\<close>
  "site_rev = site\<lparr>list_of_set := rev\<rparr>"

section \<open>Lemmas\<close>

lemma fetched_simps [simp]:
  "fetched [] = []"
  "fetched (t @ t') = fetched t @ fetched t'"
  "fetched (e # t) = get_of e @ fetched t"
  by (simp_all add: fetched_def)

lemma enqueued_simps [simp]:
  "enqueued [] = []"
  "enqueued (t @ t') = enqueued t @ enqueued t'"
  "enqueued (e # t) = enqueue_of e @ enqueued t"
  by (simp_all add: enqueued_def)

lemma set_unseen: "set (unseen seen ls) = set ls - seen"
  by (induction ls arbitrary: seen) auto

lemma distinct_unseen: "distinct (unseen seen ls)"
  by (induction ls arbitrary: seen) (auto simp: set_unseen)

lemma add_links_effect:
  "add_links ls s =
     s\<lparr>visited_urls := visited_urls s \<union> set ls,
       queue := queue s @ unseen (visited_urls s) ls,
       trace := trace s @ map Enqueue (unseen (visited_urls s) ls)\<rparr>"
proof (induction ls arbitrary: s)
  case Nil
  show ?case by simp
next
  case (Cons l ls)
  show ?case
    by (simp add: Cons.IH add_link_def insert_absorb)
qed

lemma fetched_map_Enqueue [simp]: "fetched (map Enqueue xs) = []"
  by (induction xs) simp_all

lemma enqueued_map_Enqueue [simp]: "enqueued (map Enqueue xs) = xs"
  by (induction xs) simp_all

lemma scrape_page_cases:
  obtains (skip) "scrape_page env cfg u s = (s, None)" and "page_links env cfg u = []"
  | (raised) cleaned_text e where
      "scrape_page env cfg u s =
         (s\<lparr>all_results := all_results s @ [\<lparr>rec_url = u, rec_text = cleaned_text\<rparr>],
            data_saved_count := Suc (data_saved_count s)\<rparr>, Some e)"
  | (merged) cleaned_text where
      "scrape_page env cfg u s =
         (add_links (page_links env cfg u)
            (s\<lparr>all_results := all_results s @ [\<lparr>rec_url = u, rec_text = cleaned_text\<rparr>],
               data_saved_count := Suc (data_saved_count s)\<rparr>), None)"
proof (cases "fetch_html env u")
  case None
  then have "scrape_page env cfg u s = (s, None)" "page_links env cfg u = []"
    by (simp_all add: scrape_page_def page_links_def)
  then show ?thesis by (rule skip)
next
  case (Some html)
  note f = this
  show ?thesis
  proof (cases "html \<noteq> [] \<and> (\<exists>t. clean_html_text env html = Some t \<and> t \<noteq> [] \<and>
      min_text_length cfg \<le> int (length t))")
    case False
    with f have "scrape_page env cfg u s = (s, None)"
      by (cases "clean_html_text env html") (auto simp add: scrape_page_def)
    moreover from f False have "page_links env cfg u = []"
      by (cases "clean_html_text env html") (auto simp add: page_links_def)
    ultimately show ?thesis by (rule skip)
  next
    case True
    then obtain t where h: "html \<noteq> []" and c: "clean_html_text env html = Some t"
      and t: "t \<noteq> []" "min_text_length cfg \<le> int (length t)"
      by blast
    show ?thesis
    proof (cases "find_internal_links env html u")
      case (Inl e)
      with f h c t have "scrape_page env cfg u s =
         (s\<lparr>all_results := all_results s @ [\<lparr>rec_url = u, rec_text = t\<rparr>],
            data_saved_count := Suc (data_saved_count s)\<rparr>, Some e)"
        by (simp add: scrape_page_def)
      then show ?thesis by (rule raised)
    next
      case (Inr ls)
      with f h c t have "page_links env cfg u = ls"
        by (simp add: page_links_def)
      moreover from Inr f h c t have "scrape_page env cfg u s =
         (add_links ls
            (s\<lparr>all_results := all_results s @ [\<lparr>rec_url = u, rec_text = t\<rparr>],
               data_saved_count := Suc (data_saved_count s)\<rparr>), None)"
        by (simp add: scrape_page_def)
      ultimately show ?thesis using merged by simp
    qed
  qed
qed

lemma scrape_page_frame:
  "files (fst (scrape_page env cfg u s)) = files s"
  "crawl_error_occurred (fst (scrape_page env cfg u s)) = crawl_error_occurred s"
  "write_error (fst (scrape_page env cfg u s)) = write_error s"
  "fetched (trace (fst (scrape_page env cfg u s))) = fetched (trace s)"
  by (rule scrape_page_cases [where env = env and cfg = cfg and u = u and s = s];
      simp add: add_links_effect)+

lemma scrape_page_merge:
  assumes "snd (scrape_page env cfg u s) = None"
  shows "queue (fst (scrape_page env cfg u s)) = queue s @ unseen (visited_urls s) (page_links env cfg u)
    \<and> visited_urls (fst (scrape_page env cfg u s)) = visited_urls s \<union> set (page_links env cfg u)
    \<and> enqueued (trace (fst (scrape_page env cfg u s))) =
           enqueued (trace s) @ unseen (visited_urls s) (page_links env cfg u)"
proof (rule scrape_page_cases [where env = env and cfg = cfg and u = u and s = s])
  assume "scrape_page env cfg u s = (s, None)" "page_links env cfg u = []"
  then show ?thesis by simp
next
  fix cleaned_text e
  assume "scrape_page env cfg u s =
     (s\<lparr>all_results := all_results s @ [\<lparr>rec_url = u, rec_text = cleaned_text\<rparr>],
        data_saved_count := Suc (data_saved_count s)\<rparr>, Some e)"
  with assms show ?thesis by simp
next
  fix cleaned_text
  assume "scrape_page env cfg u s =
     (add_links (page_links env cfg u)
        (s\<lparr>all_results := all_results s @ [\<lparr>rec_url = u, rec_text = cleaned_text\<rparr>],
           data_saved_count := Suc (data_saved_count s)\<rparr>), None)"
  then show ?thesis by (simp add: add_links_effect)
qed

lemma iteration_unfold:
  assumes "queue s = u # rest" and "max_pages cfg \<noteq> 0"
  shows "iteration env cfg s =
     (case scrape_page env cfg u
             (s\<lparr>queue := rest, pages_scraped_count := Suc (pages_scraped_count s),
                trace := trace s @ [Get u]\<rparr>) of
        (s2, Some e) \<Rightarrow> (s2, Some e)
      | (s2, None) \<Rightarrow>
          if queue s2 \<noteq> [] \<and> int (pages_scraped_count s2) < max_pages cfg
          then py_sleep (politeness_delay cfg) s2
          else (s2, None))"
  using assms by (simp add: iteration_def)

lemma py_sleep_frame [simp]:
  "queue (fst (py_sleep d s)) = queue s"
  "visited_urls (fst (py_sleep d s)) = visited_urls s"
  "pages_scraped_count (fst (py_sleep d s)) = pages_scraped_count s"
  "data_saved_count (fst (py_sleep d s)) = data_saved_count s"
  "all_results (fst (py_sleep d s)) = all_results s"
  "files (fst (py_sleep d s)) = files s"
  "crawl_error_occurred (fst (py_sleep d s)) = crawl_error_occurred s"
  "write_error (fst (py_sleep d s)) = write_error s"
  "fetched (trace (fst (py_sleep d s))) = fetched (trace s)"
  "enqueued (trace (fst (py_sleep d s))) = enqueued (trace s)"
  by (simp_all add: py_sleep_def)

text \<open>
  Whatever an iteration does after the dequeue, its final state is the state after
  \<open>scrape_page\<close> up to the trace of a sleep.
\<close>

lemma iteration_state:
  fixes env cfg u rest s
  defines "r \<equiv> scrape_page env cfg u
           (s\<lparr>queue := rest, pages_scraped_count := Suc (pages_scraped_count s),
              trace := trace s @ [Get u]\<rparr>)"
  assumes "queue s = u # rest" and "max_pages cfg \<noteq> 0"
  shows "fst (iteration env cfg s) = fst r \<or>
         fst (iteration env cfg s) = fst (py_sleep (politeness_delay cfg) (fst r))"
    and "snd (iteration env cfg s) = None \<Longrightarrow> snd r = None"
proof -
  have it: "iteration env cfg s =
     (case r of
        (s2, Some e) \<Rightarrow> (s2, Some e)
      | (s2, None) \<Rightarrow>
          if queue s2 \<noteq> [] \<and> int (pages_scraped_count s2) < max_pages cfg
          then py_sleep (politeness_delay cfg) s2
          else (s2, None))"
    unfolding r_def using assms(2,3) by (rule iteration_unfold)
  show "fst (iteration env cfg s) = fst r \<or>
        fst (iteration env cfg s) = fst (py_sleep (politeness_delay cfg) (fst r))"
    by (cases r; cases "snd r") (auto simp: it)
  show "snd r = None" if "snd (iteration env cfg s) = None"
    using that by (cases r; cases "snd r") (auto simp: it)
qed

lemma iteration_frame:
  assumes "queue s = u # rest" and "max_pages cfg \<noteq> 0"
  shows "fetched (trace (fst (iteration env cfg s))) = fetched (trace s) @ [u]"
    and "files (fst (iteration env cfg s)) = files s"
    and "crawl_error_occurred (fst (iteration env cfg s)) = crawl_error_occurred s"
    and "write_error (fst (iteration env cfg s)) = write_error s"
proof -
  let ?r = "scrape_page env cfg u (s\<lparr>queue := rest,
      pages_scraped_count := Suc (pages_scraped_count s), trace := trace s @ [Get u]\<rparr>)"
  have d: "fst (iteration env cfg s) = fst ?r \<or>
         fst (iteration env cfg s) = fst (py_sleep (politeness_delay cfg) (fst ?r))"
    using assms by (rule iteration_state(1))
  show "fetched (trace (fst (iteration env cfg s))) = fetched (trace s) @ [u]"
    using d by (rule disjE) (simp_all add: scrape_page_frame)
  show "files (fst (iteration env cfg s)) = files s"
    using d by (rule disjE) (simp_all add: scrape_page_frame)
  show "crawl_error_occurred (fst (iteration env cfg s)) = crawl_error_occurred s"
    using d by (rule disjE) (simp_all add: scrape_page_frame)
  show "write_error (fst (iteration env cfg s)) = write_error s"
    using d by (rule disjE) (simp_all add: scrape_page_frame)
qed

lemma iteration_merge:
  assumes "queue s = u # rest" and "max_pages cfg \<noteq> 0" and "snd (iteration env cfg s) = None"
  shows "queue (fst (iteration env cfg s)) = rest @ unseen (visited_urls s) (page_links env cfg u)"
    and "visited_urls (fst (iteration env cfg s)) = visited_urls s \<union> set (page_links env cfg u)"
    and "enqueued (trace (fst (iteration env cfg s))) =
           enqueued (trace s) @ unseen (visited_urls s) (page_links env cfg u)"
proof -
  let ?s1 = "s\<lparr>queue := rest,
      pages_scraped_count := Suc (pages_scraped_count s), trace := trace s @ [Get u]\<rparr>"
  let ?r = "scrape_page env cfg u ?s1"
  have d: "fst (iteration env cfg s) = fst ?r \<or>
         fst (iteration env cfg s) = fst (py_sleep (politeness_delay cfg) (fst ?r))"
    using assms(1,2) by (rule iteration_state(1))
  have "snd ?r = None"
    using assms by (rule iteration_state(2))
  then have m: "queue (fst ?r) = rest @ unseen (visited_urls s) (page_links env cfg u)"
    "visited_urls (fst ?r) = visited_urls s \<union> set (page_links env cfg u)"
    "enqueued (trace (fst ?r)) = enqueued (trace s) @ unseen (visited_urls s) (page_links env cfg u)"
    using scrape_page_merge [of env cfg u ?s1] by simp_all
  show "queue (fst (iteration env cfg s)) = rest @ unseen (visited_urls s) (page_links env cfg u)"
    using d by (rule disjE) (simp_all add: m)
  show "visited_urls (fst (iteration env cfg s)) = visited_urls s \<union> set (page_links env cfg u)"
    using d by (rule disjE) (simp_all add: m)
  show "enqueued (trace (fst (iteration env cfg s))) =
           enqueued (trace s) @ unseen (visited_urls s) (page_links env cfg u)"
    using d by (rule disjE) (simp_all add: m)
qed

lemma crawl_loop_invariant:
  assumes "P s"
    and "\<And>s. P s \<Longrightarrow> queue s \<noteq> [] \<Longrightarrow> int (pages_scraped_count s) < max_pages cfg \<Longrightarrow>
           P (fst (iteration env cfg s))"
  shows "P (fst (crawl_loop env cfg s))"
  using assms
proof (induction env cfg s rule: crawl_loop.induct)
  case (1 env cfg s)
  show ?case
  proof (cases "queue s \<noteq> [] \<and> int (pages_scraped_count s) < max_pages cfg")
    case False
    with "1.prems"(1) show ?thesis by (auto simp add: crawl_loop.simps [of env cfg s])
  next
    case True
    obtain s' ex where it: "iteration env cfg s = (s', ex)"
      by (cases "iteration env cfg s")
    have P': "P s'"
      using "1.prems"(1) True it "1.prems"(2) [of s] by simp
    show ?thesis
    proof (cases ex)
      case None
      with True it have "crawl_loop env cfg s = crawl_loop env cfg s'"
        by (simp add: crawl_loop.simps [of env cfg s])
      moreover have "P (fst (crawl_loop env cfg s'))"
        using "1.IH" [of s' ex] True it None P' "1.prems"(2) by simp
      ultimately show ?thesis by simp
    next
      case (Some e)
      with True it have "crawl_loop env cfg s = (s', Some e)"
        by (simp add: crawl_loop.simps [of env cfg s])
      with P' show ?thesis by simp
    qed
  qed
qed

lemma frontier_inv_init: "frontier_inv (init_state u fs)"
  by (simp add: frontier_inv_def init_state_def)

lemma frontier_inv_add_links:
  assumes "distinct (enqueued (trace s))" and "set (enqueued (trace s)) = visited_urls s"
  shows "distinct (enqueued (trace (add_links ls s)))"
    and "set (enqueued (trace (add_links ls s))) = visited_urls (add_links ls s)"
  using assms by (auto simp: add_links_effect distinct_unseen set_unseen)

lemma frontier_inv_scrape_page:
  assumes "distinct (enqueued (trace s))" and "set (enqueued (trace s)) = visited_urls s"
  shows "distinct (enqueued (trace (fst (scrape_page env cfg u s)))) \<and>
     set (enqueued (trace (fst (scrape_page env cfg u s)))) = visited_urls (fst (scrape_page env cfg u s))"
proof (rule scrape_page_cases [where env = env and cfg = cfg and u = u and s = s])
  assume "scrape_page env cfg u s = (s, None)"
  with assms show ?thesis by simp
next
  fix cleaned_text e
  assume "scrape_page env cfg u s =
     (s\<lparr>all_results := all_results s @ [\<lparr>rec_url = u, rec_text = cleaned_text\<rparr>],
        data_saved_count := Suc (data_saved_count s)\<rparr>, Some e)"
  with assms show ?thesis by simp
next
  fix cleaned_text
  let ?s1 = "s\<lparr>all_results := all_results s @ [\<lparr>rec_url = u, rec_text = cleaned_text\<rparr>],
           data_saved_count := Suc (data_saved_count s)\<rparr>"
  assume "scrape_page env cfg u s = (add_links (page_links env cfg u) ?s1, None)"
  then show ?thesis
    using frontier_inv_add_links [of ?s1 "page_links env cfg u"] assms by simp
qed

lemma frontier_inv_iteration:
  assumes "frontier_inv s" and "queue s \<noteq> []" and "int (pages_scraped_count s) < max_pages cfg"
  shows "frontier_inv (fst (iteration env cfg s))"
proof -
  obtain u rest where q: "queue s = u # rest"
    using assms(2) by (cases "queue s") auto
  from assms(3) have m: "max_pages cfg \<noteq> 0" by auto
  let ?s1 = "s\<lparr>queue := rest,
      pages_scraped_count := Suc (pages_scraped_count s), trace := trace s @ [Get u]\<rparr>"
  let ?r = "scrape_page env cfg u ?s1"
  have d: "fst (iteration env cfg s) = fst ?r \<or>
         fst (iteration env cfg s) = fst (py_sleep (politeness_delay cfg) (fst ?r))"
    using q m by (rule iteration_state(1))
  have e: "distinct (enqueued (trace (fst ?r))) \<and>
     set (enqueued (trace (fst ?r))) = visited_urls (fst ?r)"
    using assms(1) by (intro frontier_inv_scrape_page) (simp_all add: frontier_inv_def)
  have e': "distinct (enqueued (trace (fst (iteration env cfg s)))) \<and>
     set (enqueued (trace (fst (iteration env cfg s)))) = visited_urls (fst (iteration env cfg s))"
    using d by (rule disjE) (simp_all add: e)
  have "length (fetched (trace (fst (iteration env cfg s)))) = Suc (length (fetched (trace s)))"
    using iteration_frame(1) [OF q m, of env] by simp
  moreover have "pages_scraped_count (fst (iteration env cfg s)) = Suc (pages_scraped_count s)"
    using assms(2) by (rule iteration_count)
  ultimately show ?thesis
    using e' assms(1) by (simp add: frontier_inv_def)
qed

lemma frontier_inv_crawl_loop:
  assumes "frontier_inv s"
  shows "frontier_inv (fst (crawl_loop env cfg s))"
  using assms by (rule crawl_loop_invariant) (rule frontier_inv_iteration)

lemma budget_crawl_loop:
  assumes "int (pages_scraped_count s) \<le> m" and "max_pages cfg \<le> m"
  shows "int (pages_scraped_count (fst (crawl_loop env cfg s))) \<le> m"
proof (rule crawl_loop_invariant [where P = "\<lambda>s::crawl_state. int (pages_scraped_count s) \<le> m"])
  show "int (pages_scraped_count s) \<le> m" by (rule assms(1))
next
  fix t :: crawl_state
  assume "queue t \<noteq> []" and "int (pages_scraped_count t) < max_pages cfg"
  then show "int (pages_scraped_count (fst (iteration env cfg t))) \<le> m"
    using assms(2) by (simp add: iteration_count)
qed

lemma same_crawl_refl [simp]: "same_crawl s s"
  by (simp add: same_crawl_def)

lemma same_crawl_trans: "same_crawl s t \<Longrightarrow> same_crawl t r \<Longrightarrow> same_crawl s r"
  by (simp add: same_crawl_def)

lemma same_crawl_flags [simp]:
  "same_crawl (s\<lparr>crawl_error_occurred := b\<rparr>) t = same_crawl s t"
  "same_crawl (s\<lparr>write_error := b\<rparr>) t = same_crawl s t"
  by (simp_all add: same_crawl_def)

lemma same_crawl_open: "same_crawl (fst (py_open_w env n p s)) s"
  by (simp add: py_open_w_def same_crawl_def split: option.splits)

lemma same_crawl_write_items: "same_crawl (fst (write_items env p k items s)) s"
proof (induction items arbitrary: k s)
  case Nil
  show ?case by simp
next
  case (Cons item items)
  show ?case
  proof (cases "write_raises env k")
    case None
    let ?s' = "s\<lparr>files := (files s)(p \<mapsto> (case files s p of None \<Rightarrow> [] | Some c \<Rightarrow> c) @
        (json_dumps item @ [CHR 0x0A])),
      trace := trace s @ [Write_line (json_dumps item @ [CHR 0x0A])]\<rparr>"
    have "same_crawl (fst (write_items env p (Suc k) items ?s')) ?s'"
      by (rule Cons.IH)
    moreover have "same_crawl ?s' s"
      by (simp add: same_crawl_def)
    ultimately have "same_crawl (fst (write_items env p (Suc k) items ?s')) s"
      by (rule same_crawl_trans)
    with None show ?thesis by (simp add: Let_def)
  next
    case (Some e)
    then show ?thesis by simp
  qed
qed

lemma same_crawl_write_results: "same_crawl (fst (write_results env cfg s)) s"
proof -
  obtain s' ex where o: "py_open_w env 1 (output_file cfg) s = (s', ex)"
    by (cases "py_open_w env 1 (output_file cfg) s")
  have s': "same_crawl s' s"
    using same_crawl_open [of env 1 "output_file cfg" s] o by simp
  show ?thesis
  proof (cases ex)
    case None
    have "same_crawl (fst (write_items env (output_file cfg) 0 (all_results s') s')) s'"
      by (rule same_crawl_write_items)
    then have "same_crawl (fst (write_items env (output_file cfg) 0 (all_results s') s')) s"
      using s' by (rule same_crawl_trans)
    with o None show ?thesis by (simp add: write_results_def)
  next
    case (Some e)
    with o s' show ?thesis by (simp add: write_results_def)
  qed
qed

lemma same_crawl_finalize: "same_crawl (snd (finalize env cfg s)) s"
proof (cases "crawl_error_occurred s")
  case True
  then show ?thesis by (simp add: finalize_def)
next
  case False
  obtain s' ex where w: "write_results env cfg s = (s', ex)"
    by (cases "write_results env cfg s")
  have "same_crawl s' s"
    using same_crawl_write_results [of env cfg s] w by simp
  with False w show ?thesis
    by (cases ex) (simp_all add: finalize_def)
qed

lemma py_open_w_init:
  "py_open_w env 0 (output_file cfg) (init_state (start_url cfg) fs) =
     (case open_raises env 0 of
        Some e \<Rightarrow> (init_state (start_url cfg) fs, Some e)
      | None \<Rightarrow> (cleared_state cfg fs, None))"
  by (simp add: py_open_w_def cleared_state_def init_state_def split: option.splits)

lemma crawl_unfold:
  "crawl_website_streamlit env cfg fs =
     (case open_raises env 0 of
        Some e \<Rightarrow>
          if isinstance_IOError e
          then (Inr None, (init_state (start_url cfg) fs)\<lparr>crawl_error_occurred := True\<rparr>)
          else (Inl e, init_state (start_url cfg) fs)
      | None \<Rightarrow>
          (case snd (crawl_loop env cfg (cleared_state cfg fs)) of
             Some e \<Rightarrow> finalize env cfg
                 ((fst (crawl_loop env cfg (cleared_state cfg fs)))\<lparr>crawl_error_occurred := True\<rparr>)
           | None \<Rightarrow> finalize env cfg (fst (crawl_loop env cfg (cleared_state cfg fs)))))"
  by (cases "crawl_loop env cfg (cleared_state cfg fs)")
    (simp add: crawl_website_streamlit_def Let_def py_open_w_init split: option.splits)

lemma same_crawl_run:
  "same_crawl (snd (crawl_website_streamlit env cfg fs)) (init_state (start_url cfg) fs) \<or>
   same_crawl (snd (crawl_website_streamlit env cfg fs)) (fst (crawl_loop env cfg (cleared_state cfg fs)))"
proof (cases "open_raises env 0")
  case (Some e)
  then show ?thesis by (simp add: crawl_unfold)
next
  case None
  let ?L = "fst (crawl_loop env cfg (cleared_state cfg fs))"
  have "same_crawl (snd (finalize env cfg (?L\<lparr>crawl_error_occurred := True\<rparr>))) ?L"
    using same_crawl_finalize [of env cfg "?L\<lparr>crawl_error_occurred := True\<rparr>"]
    by (simp add: same_crawl_def)
  moreover have "same_crawl (snd (finalize env cfg ?L)) ?L"
    by (rule same_crawl_finalize)
  ultimately show ?thesis
    using None by (simp add: crawl_unfold split: option.splits)
qed

lemma frontier_inv_same: "same_crawl s t \<Longrightarrow> frontier_inv t \<Longrightarrow> frontier_inv s"
  by (simp add: same_crawl_def frontier_inv_def)

lemma frontier_inv_cleared: "frontier_inv (cleared_state cfg fs)"
  by (simp add: frontier_inv_def cleared_state_def init_state_def)

lemma frontier_inv_run: "frontier_inv (snd (crawl_website_streamlit env cfg fs))"
  using same_crawl_run [of env cfg fs]
proof
  assume "same_crawl (snd (crawl_website_streamlit env cfg fs)) (init_state (start_url cfg) fs)"
  then show ?thesis using frontier_inv_init by (rule frontier_inv_same)
next
  assume "same_crawl (snd (crawl_website_streamlit env cfg fs))
    (fst (crawl_loop env cfg (cleared_state cfg fs)))"
  then show ?thesis
    using frontier_inv_crawl_loop [OF frontier_inv_cleared] by (rule frontier_inv_same)
qed

lemma budget_run:
  "int (pages_scraped_count (snd (crawl_website_streamlit env cfg fs))) \<le> max 0 (max_pages cfg)"
  using same_crawl_run [of env cfg fs]
proof
  assume "same_crawl (snd (crawl_website_streamlit env cfg fs)) (init_state (start_url cfg) fs)"
  then show ?thesis by (simp add: same_crawl_def init_state_def)
next
  assume a: "same_crawl (snd (crawl_website_streamlit env cfg fs))
    (fst (crawl_loop env cfg (cleared_state cfg fs)))"
  have "int (pages_scraped_count (fst (crawl_loop env cfg (cleared_state cfg fs))))
      \<le> max 0 (max_pages cfg)"
    by (intro budget_crawl_loop) (simp_all add: cleared_state_def init_state_def)
  with a show ?thesis by (simp add: same_crawl_def)
qed

lemma count_list_distinct: "distinct xs \<Longrightarrow> count_list xs x \<le> 1"
  by (induction xs) (auto simp: count_list_0_iff)



lemma clean_html_text_empty [simp]: "clean_html_text env [] = None"
  by (simp add: clean_html_text_def)

lemma files_crawl_loop: "files (fst (crawl_loop env cfg s)) = files s"
proof (rule crawl_loop_invariant [where P = "\<lambda>t::crawl_state. files t = files s"])
  show "files s = files s" by simp
next
  fix t :: crawl_state
  assume a: "files t = files s" and q: "queue t \<noteq> []"
    and g: "int (pages_scraped_count t) < max_pages cfg"
  obtain u rest where "queue t = u # rest"
    using q by (cases "queue t") auto
  moreover from g have "max_pages cfg \<noteq> 0" by auto
  ultimately have "files (fst (iteration env cfg t)) = files t"
    by (rule iteration_frame(2))
  with a show "files (fst (iteration env cfg t)) = files s" by simp
qed






























lemma queue_order_Nil [simp]: "queue_order links n seen [] = []"
  by (cases n) simp_all

lemma queue_order_level:
  "queue_order links n seen (cur @ acc) =
     take n cur @
     queue_order links (n - length cur) (seen \<union> set (next_level links seen cur))
       (acc @ next_level links seen cur)"
proof (induction cur arbitrary: n seen acc)
  case Nil
  show ?case by simp
next
  case (Cons u cur)
  show ?case
  proof (cases n)
    case 0
    then show ?thesis by simp
  next
    case (Suc m)
    have s: "seen \<union> set (links u) \<union> set (next_level links (seen \<union> set (links u)) cur) =
        seen \<union> (set (unseen seen (links u)) \<union> set (next_level links (seen \<union> set (links u)) cur))"
      by (auto simp: set_unseen)
    show ?thesis
      using Cons.IH [of m "seen \<union> set (links u)" "acc @ unseen seen (links u)"]
      by (simp add: Suc s)
  qed
qed

lemma queue_order_bfs: "queue_order links n seen level = bfs_order links n seen level"
proof (induction links n seen level rule: bfs_order.induct)
  case (1 links n seen level)
  show ?case
  proof (cases "n = 0 \<or> level = []")
    case True
    then show ?thesis
      by (auto simp add: bfs_order.simps [of links n seen level])
  next
    case False
    have "queue_order links n seen level =
        take n level @ queue_order links (n - length level)
          (seen \<union> set (next_level links seen level)) (next_level links seen level)"
      using queue_order_level [of links n seen level "[]"] by simp
    also have "\<dots> = take n level @ bfs_order links (n - length level)
          (seen \<union> set (next_level links seen level)) (next_level links seen level)"
      using "1.IH" False by simp
    also have "\<dots> = bfs_order links n seen level"
      using False by (simp add: bfs_order.simps [of links n seen level])
    finally show ?thesis .
  qed
qed

lemma crawl_loop_order:
  "\<exists>rest. fetched (trace s) @
        queue_order (page_links env cfg) (nat (max_pages cfg - int (pages_scraped_count s)))
          (visited_urls s) (queue s) =
      fetched (trace (fst (crawl_loop env cfg s))) @ rest \<and>
      (snd (crawl_loop env cfg s) = None \<longrightarrow> rest = [])"
proof (induction env cfg s rule: crawl_loop.induct)
  case (1 env cfg s)
  let ?n = "nat (max_pages cfg - int (pages_scraped_count s))"
  show ?case
  proof (cases "queue s \<noteq> [] \<and> int (pages_scraped_count s) < max_pages cfg")
    case False
    then have "queue_order (page_links env cfg) ?n (visited_urls s) (queue s) = []"
      by auto
    moreover from False have "crawl_loop env cfg s = (s, None)"
      by (auto simp add: crawl_loop.simps [of env cfg s])
    ultimately show ?thesis by simp
  next
    case True
    then obtain u rest where q: "queue s = u # rest"
      by (cases "queue s") auto
    from True have m: "max_pages cfg \<noteq> 0" by auto
    from True have n: "?n = Suc (nat (max_pages cfg - int (Suc (pages_scraped_count s))))"
      by auto
    obtain s' ex where it: "iteration env cfg s = (s', ex)"
      by (cases "iteration env cfg s")
    have f: "fetched (trace s') = fetched (trace s) @ [u]"
      using iteration_frame(1) [OF q m, of env] it by simp
    have c: "pages_scraped_count s' = Suc (pages_scraped_count s)"
      using iteration_count [of s env cfg] True it by simp
    have qo: "queue_order (page_links env cfg) ?n (visited_urls s) (queue s) =
        u # queue_order (page_links env cfg) (nat (max_pages cfg - int (Suc (pages_scraped_count s))))
          (visited_urls s \<union> set (page_links env cfg u))
          (rest @ unseen (visited_urls s) (page_links env cfg u))"
      by (simp add: n q del: of_nat_Suc)
    show ?thesis
    proof (cases ex)
      case (Some e)
      with True it have "crawl_loop env cfg s = (s', Some e)"
        by (simp add: crawl_loop.simps [of env cfg s])
      then show ?thesis
        by (simp add: f qo)
    next
      case None
      with True it have l: "crawl_loop env cfg s = crawl_loop env cfg s'"
        by (simp add: crawl_loop.simps [of env cfg s])
      have mg: "queue s' = rest @ unseen (visited_urls s) (page_links env cfg u)"
        "visited_urls s' = visited_urls s \<union> set (page_links env cfg u)"
        using iteration_merge(1,2) [OF q m, of env] it None by simp_all
      have "\<exists>rest. fetched (trace s') @
          queue_order (page_links env cfg) (nat (max_pages cfg - int (pages_scraped_count s')))
            (visited_urls s') (queue s') =
          fetched (trace (fst (crawl_loop env cfg s'))) @ rest \<and>
          (snd (crawl_loop env cfg s') = None \<longrightarrow> rest = [])"
        using "1.IH" [of s' ex] True it None by simp
      then show ?thesis
        by (simp add: l f qo mg c del: of_nat_Suc)
    qed
  qed
qed

lemma fetched_run:
  assumes "open_raises env 0 = None"
  shows "fetched (trace (snd (crawl_website_streamlit env cfg fs))) =
         fetched (trace (fst (crawl_loop env cfg (cleared_state cfg fs))))"
proof -
  let ?L = "fst (crawl_loop env cfg (cleared_state cfg fs))"
  have "fetched (trace (snd (finalize env cfg (?L\<lparr>crawl_error_occurred := True\<rparr>)))) =
      fetched (trace ?L)"
    using same_crawl_finalize [of env cfg "?L\<lparr>crawl_error_occurred := True\<rparr>"]
    by (simp add: same_crawl_def)
  moreover have "fetched (trace (snd (finalize env cfg ?L))) = fetched (trace ?L)"
    using same_crawl_finalize [of env cfg ?L] by (simp add: same_crawl_def)
  ultimately show ?thesis
    using assms by (simp add: crawl_unfold split: option.splits)
qed

lemma crawl_success_loop:
  assumes "fst (crawl_website_streamlit env cfg fs) = Inr (Some p)"
  shows "open_raises env 0 = None" and "snd (crawl_loop env cfg (cleared_state cfg fs)) = None"
proof -
  show o: "open_raises env 0 = None"
  proof (cases "open_raises env 0")
    case (Some e)
    with assms show ?thesis by (simp add: crawl_unfold split: if_splits)
  qed simp
  show "snd (crawl_loop env cfg (cleared_state cfg fs)) = None"
  proof (cases "snd (crawl_loop env cfg (cleared_state cfg fs))")
    case (Some e)
    with assms o show ?thesis by (simp add: crawl_unfold finalize_def)
  qed simp
qed

section \<open>The claims\<close>

text \<open>
  C1 (no revisit). A run starts with exactly the seed in the queue and in the visited
  set; a link is appended to the queue only when it is not in the visited set, and is
  put into the visited set in the same step; and in the trace of every run, whatever
  its end, every URL is enqueued at most once.
\<close>

theorem no_revisit:
  "queue (init_state u fs) = [u] \<and> visited_urls (init_state u fs) = {u} \<and>
   (l \<in> visited_urls s \<longrightarrow> add_link l s = s) \<and>
   (l \<notin> visited_urls s \<longrightarrow>
      queue (add_link l s) = queue s @ [l] \<and>
      visited_urls (add_link l s) = insert l (visited_urls s) \<and>
      enqueued (trace (add_link l s)) = enqueued (trace s) @ [l]) \<and>
   count_list (enqueued (trace (snd (crawl_website_streamlit env cfg fs)))) x \<le> 1"
proof -
  have "distinct (enqueued (trace (snd (crawl_website_streamlit env cfg fs))))"
    using frontier_inv_run [of env cfg fs] by (simp add: frontier_inv_def)
  then have "count_list (enqueued (trace (snd (crawl_website_streamlit env cfg fs)))) x \<le> 1"
    by (rule count_list_distinct)
  then show ?thesis
    by (simp add: init_state_def add_link_def)
qed

theorem no_revisit_witness:
  "''http://h/a'' \<notin> visited_urls (init_state ''http://h/'' Map.empty) \<and>
   queue (add_link ''http://h/a'' (init_state ''http://h/'' Map.empty)) = [''http://h/'', ''http://h/a''] \<and>
   add_link ''http://h/'' (init_state ''http://h/'' Map.empty) = init_state ''http://h/'' Map.empty \<and>
   enqueued (trace (snd (crawl_website_streamlit site site_config Map.empty))) =
     [''http://h/'', ''http://h/a'', ''http://h/b'', ''http://h/c''] \<and>
   count_list (enqueued (trace (snd (crawl_website_streamlit site site_config Map.empty))))
     ''http://h/b'' \<le> 1"
proof -
  have e: "enqueued (trace (snd (crawl_website_streamlit site site_config Map.empty))) =
     [''http://h/'', ''http://h/a'', ''http://h/b'', ''http://h/c'']"
    by code_simp
  have v: "''http://h/a'' \<notin> visited_urls (init_state ''http://h/'' Map.empty)"
    by (simp add: init_state_def)
  have w: "''http://h/'' \<in> visited_urls (init_state ''http://h/'' Map.empty)"
    by (simp add: init_state_def)
  have q: "queue (init_state ''http://h/'' Map.empty) = [''http://h/'']"
    by (simp add: init_state_def)
  show ?thesis
    using no_revisit [where u = "''http://h/''" and fs = Map.empty and l = "''http://h/a''"
        and s = "init_state ''http://h/'' Map.empty" and env = site and cfg = site_config
        and x = "''http://h/b''"]
      no_revisit [where u = "''http://h/''" and fs = Map.empty and l = "''http://h/''"
        and s = "init_state ''http://h/'' Map.empty" and env = site and cfg = site_config
        and x = "''http://h/b''"]
      e v w q
    by simp
qed

text \<open>
  C2 (page budget). The loop body is entered only while the queue is non-empty and
  \<open>pages_scraped_count < max_pages\<close>; each pass fetches the head of the queue and
  increments the counter by exactly one; so in every run the counter, which is the
  number of pages fetched, is at most \<open>max_pages\<close>, or zero when the budget is negative
  (the sidebar allows 1 to 1000).
\<close>

theorem page_budget:
  "(\<not> (queue s \<noteq> [] \<and> int (pages_scraped_count s) < max_pages cfg) \<longrightarrow>
      crawl_loop env cfg s = (s, None)) \<and>
   (queue s \<noteq> [] \<and> int (pages_scraped_count s) < max_pages cfg \<longrightarrow>
      pages_scraped_count (fst (iteration env cfg s)) = Suc (pages_scraped_count s) \<and>
      fetched (trace (fst (iteration env cfg s))) = fetched (trace s) @ [hd (queue s)]) \<and>
   length (fetched (trace (snd (crawl_website_streamlit env cfg fs)))) =
     pages_scraped_count (snd (crawl_website_streamlit env cfg fs)) \<and>
   int (pages_scraped_count (snd (crawl_website_streamlit env cfg fs))) \<le> max 0 (max_pages cfg) \<and>
   (0 \<le> max_pages cfg \<longrightarrow>
      int (pages_scraped_count (snd (crawl_website_streamlit env cfg fs))) \<le> max_pages cfg)"
proof -
  have a: "crawl_loop env cfg s = (s, None)"
    if "\<not> (queue s \<noteq> [] \<and> int (pages_scraped_count s) < max_pages cfg)"
    using that by (auto simp add: crawl_loop.simps [of env cfg s])
  have b: "pages_scraped_count (fst (iteration env cfg s)) = Suc (pages_scraped_count s) \<and>
      fetched (trace (fst (iteration env cfg s))) = fetched (trace s) @ [hd (queue s)]"
    if g: "queue s \<noteq> [] \<and> int (pages_scraped_count s) < max_pages cfg"
  proof -
    obtain u rest where q: "queue s = u # rest"
      using g by (cases "queue s") auto
    from g have m: "max_pages cfg \<noteq> 0" by auto
    show ?thesis
      using iteration_count [of s env cfg] iteration_frame(1) [OF q m, of env] g q by simp
  qed
  have c: "length (fetched (trace (snd (crawl_website_streamlit env cfg fs)))) =
     pages_scraped_count (snd (crawl_website_streamlit env cfg fs))"
    using frontier_inv_run [of env cfg fs] by (simp add: frontier_inv_def)
  have d: "int (pages_scraped_count (snd (crawl_website_streamlit env cfg fs)))
      \<le> max 0 (max_pages cfg)"
    by (rule budget_run)
  then have e: "int (pages_scraped_count (snd (crawl_website_streamlit env cfg fs))) \<le> max_pages cfg"
    if "0 \<le> max_pages cfg"
    using that by simp
  from a b c d e show ?thesis by blast
qed

theorem page_budget_witness:
  "queue (cleared_state (site_config\<lparr>max_pages := 2\<rparr>) Map.empty) \<noteq> [] \<and>
   int (pages_scraped_count (cleared_state (site_config\<lparr>max_pages := 2\<rparr>) Map.empty))
     < max_pages (site_config\<lparr>max_pages := 2\<rparr>) \<and>
   pages_scraped_count (fst (iteration site (site_config\<lparr>max_pages := 2\<rparr>)
     (cleared_state (site_config\<lparr>max_pages := 2\<rparr>) Map.empty))) = 1 \<and>
   (0::int) \<le> max_pages (site_config\<lparr>max_pages := 2\<rparr>) \<and>
   fetched (trace (snd (crawl_website_streamlit site (site_config\<lparr>max_pages := 2\<rparr>) Map.empty))) =
     [''http://h/'', ''http://h/a''] \<and>
   int (pages_scraped_count (snd (crawl_website_streamlit site (site_config\<lparr>max_pages := 2\<rparr>)
     Map.empty))) \<le> max_pages (site_config\<lparr>max_pages := 2\<rparr>)"
proof -
  have f: "fetched (trace (snd (crawl_website_streamlit site (site_config\<lparr>max_pages := 2\<rparr>) Map.empty))) =
     [''http://h/'', ''http://h/a'']"
    by code_simp
  have g: "queue (cleared_state (site_config\<lparr>max_pages := 2\<rparr>) Map.empty) \<noteq> []"
    "pages_scraped_count (cleared_state (site_config\<lparr>max_pages := 2\<rparr>) Map.empty) = 0"
    "max_pages (site_config\<lparr>max_pages := 2\<rparr>) = 2"
    by (simp_all add: cleared_state_def init_state_def)
  show ?thesis
    using page_budget [where s = "cleared_state (site_config\<lparr>max_pages := 2\<rparr>) Map.empty"
        and cfg = "site_config\<lparr>max_pages := 2\<rparr>" and env = site and fs = Map.empty] f g
    by simp
qed

text \<open>
  C3 (BFS order), as amended. The URLs fetched by a run are always an initial part of
  the breadth-first traversal from the seed, cut at \<open>max_pages\<close>, of the graph whose
  edges from a page are the links \<open>find_internal_links\<close> returns for it, in the order in
  which it returns them; when the call returns the result path, they are that whole
  traversal. A page's links are appended to the queue in the order of the returned
  list, those already visited left out. That list is \<open>list(links)\<close> of a Python set: its
  order is the set's iteration order, not the order of the anchors in the document.
\<close>

theorem bfs_fetch_order:
  "(\<exists>rest. bfs_order (page_links env cfg) (nat (max_pages cfg)) {start_url cfg} [start_url cfg] =
       fetched (trace (snd (crawl_website_streamlit env cfg fs))) @ rest) \<and>
   (fst (crawl_website_streamlit env cfg fs) = Inr (Some p) \<longrightarrow>
      fetched (trace (snd (crawl_website_streamlit env cfg fs))) =
        bfs_order (page_links env cfg) (nat (max_pages cfg)) {start_url cfg} [start_url cfg]) \<and>
   queue (add_links ls s) = queue s @ unseen (visited_urls s) ls"
proof -
  let ?bfs = "bfs_order (page_links env cfg) (nat (max_pages cfg)) {start_url cfg} [start_url cfg]"
  let ?L = "crawl_loop env cfg (cleared_state cfg fs)"
  have c: "fetched (trace (cleared_state cfg fs)) = []" "pages_scraped_count (cleared_state cfg fs) = 0"
    "visited_urls (cleared_state cfg fs) = {start_url cfg}" "queue (cleared_state cfg fs) = [start_url cfg]"
    by (simp_all add: cleared_state_def init_state_def)
  obtain rest where r: "?bfs = fetched (trace (fst ?L)) @ rest"
    and r0: "snd ?L = None \<longrightarrow> rest = []"
    using crawl_loop_order [of "cleared_state cfg fs" env cfg]
    by (auto simp add: c queue_order_bfs)
  have 1: "\<exists>rest. ?bfs = fetched (trace (snd (crawl_website_streamlit env cfg fs))) @ rest"
  proof (cases "open_raises env 0")
    case None
    then show ?thesis using r by (simp add: fetched_run)
  next
    case (Some e)
    then show ?thesis by (simp add: crawl_unfold init_state_def)
  qed
  have 2: "fetched (trace (snd (crawl_website_streamlit env cfg fs))) = ?bfs"
    if ok: "fst (crawl_website_streamlit env cfg fs) = Inr (Some p)"
    using crawl_success_loop [OF ok] r r0 by (simp add: fetched_run)
  have 3: "queue (add_links ls s) = queue s @ unseen (visited_urls s) ls"
    by (simp add: add_links_effect)
  from 1 2 3 show ?thesis by blast
qed

text \<open>
  The claim as stated (links enter the frontier in the order their anchors are
  encountered) fails where the set iterates in another order: the home page has the
  anchor of \<open>/a\<close> before that of \<open>/b\<close>, the traversal by anchor order fetches \<open>/a\<close>
  before \<open>/b\<close>, and the run fetches \<open>/b\<close> first.
\<close>

theorem bfs_fetch_order_counterexample:
  "py_set_faithful site_rev \<and>
   fst (crawl_website_streamlit site_rev site_config Map.empty) = Inr (Some ''out.jsonl'') \<and>
   anchor_links site_rev site_config ''http://h/'' = [''http://h/a'', ''http://h/b'', ''http://h/''] \<and>
   bfs_order (anchor_links site_rev site_config) (nat (max_pages site_config))
       {start_url site_config} [start_url site_config] =
     [''http://h/'', ''http://h/a'', ''http://h/b'', ''http://h/c''] \<and>
   fetched (trace (snd (crawl_website_streamlit site_rev site_config Map.empty))) =
     [''http://h/'', ''http://h/b'', ''http://h/a'', ''http://h/c'']"
proof -
  have a: "py_set_faithful site_rev"
    by (simp add: py_set_faithful_def site_rev_def)
  have b: "fst (crawl_website_streamlit site_rev site_config Map.empty) = Inr (Some ''out.jsonl'')"
    by code_simp
  have c: "anchor_links site_rev site_config ''http://h/'' = [''http://h/a'', ''http://h/b'', ''http://h/'']"
    by code_simp
  have d: "bfs_order (anchor_links site_rev site_config) (nat (max_pages site_config))
       {start_url site_config} [start_url site_config] =
     [''http://h/'', ''http://h/a'', ''http://h/b'', ''http://h/c'']"
    by code_simp
  have e: "fetched (trace (snd (crawl_website_streamlit site_rev site_config Map.empty))) =
     [''http://h/'', ''http://h/b'', ''http://h/a'', ''http://h/c'']"
    by code_simp
  from a b c d e show ?thesis by blast
qed

theorem bfs_fetch_order_witness:
  "fst (crawl_website_streamlit site_rev site_config Map.empty) = Inr (Some ''out.jsonl'') \<and>
   page_links site_rev site_config ''http://h/'' = [''http://h/'', ''http://h/b'', ''http://h/a''] \<and>
   bfs_order (page_links site_rev site_config) (nat (max_pages site_config))
       {start_url site_config} [start_url site_config] =
     [''http://h/'', ''http://h/b'', ''http://h/a'', ''http://h/c''] \<and>
   fetched (trace (snd (crawl_website_streamlit site_rev site_config Map.empty))) =
     [''http://h/'', ''http://h/b'', ''http://h/a'', ''http://h/c'']"
proof -
  have b: "fst (crawl_website_streamlit site_rev site_config Map.empty) = Inr (Some ''out.jsonl'')"
    by code_simp
  have c: "page_links site_rev site_config ''http://h/'' = [''http://h/'', ''http://h/b'', ''http://h/a'']"
    by code_simp
  have d: "bfs_order (page_links site_rev site_config) (nat (max_pages site_config))
       {start_url site_config} [start_url site_config] =
     [''http://h/'', ''http://h/b'', ''http://h/a'', ''http://h/c'']"
    by code_simp
  have e: "fetched (trace (snd (crawl_website_streamlit site_rev site_config Map.empty))) =
     bfs_order (page_links site_rev site_config) (nat (max_pages site_config))
       {start_url site_config} [start_url site_config]"
    using bfs_fetch_order [where env = site_rev and cfg = site_config and fs = Map.empty
        and p = "''out.jsonl''"] b
    by blast
  from b c d e show ?thesis by simp
qed

text \<open>
  C4 (threshold gate), as amended. For a fetched page, when the extracted text is
  non-empty and its length is at least \<open>min_text_length\<close>, the record is appended and
  the links found are merged into the frontier; when the extraction fails, or the text
  is empty, or it is shorter than \<open>min_text_length\<close>, the state is left as it is:
  nothing is saved and no link is merged. The test of the source is
  \<open>cleaned_text and len(cleaned_text) >= min_text_length\<close>.
\<close>

theorem threshold_gate:
  "fetch_html env u = Some html \<longrightarrow>
   (clean_html_text env html = Some t \<and> t \<noteq> [] \<and> min_text_length cfg \<le> int (length t) \<longrightarrow>
      all_results (fst (scrape_page env cfg u s)) = all_results s @ [\<lparr>rec_url = u, rec_text = t\<rparr>] \<and>
      data_saved_count (fst (scrape_page env cfg u s)) = Suc (data_saved_count s) \<and>
      (find_internal_links env html u = Inr ls \<longrightarrow>
         scrape_page env cfg u s =
           (add_links ls
              (s\<lparr>all_results := all_results s @ [\<lparr>rec_url = u, rec_text = t\<rparr>],
                 data_saved_count := Suc (data_saved_count s)\<rparr>), None))) \<and>
   (clean_html_text env html = None \<or> clean_html_text env html = Some [] \<or>
    (clean_html_text env html = Some t \<and> int (length t) < min_text_length cfg) \<longrightarrow>
      scrape_page env cfg u s = (s, None))"
proof (intro impI conjI)
  assume f: "fetch_html env u = Some html"
    and c: "clean_html_text env html = Some t \<and> t \<noteq> [] \<and> min_text_length cfg \<le> int (length t)"
  then have h: "html \<noteq> []" by auto
  let ?s1 = "s\<lparr>all_results := all_results s @ [\<lparr>rec_url = u, rec_text = t\<rparr>],
                 data_saved_count := Suc (data_saved_count s)\<rparr>"
  have sp: "scrape_page env cfg u s =
      (case find_internal_links env html u of
         Inl e \<Rightarrow> (?s1, Some e)
       | Inr internal_links \<Rightarrow> (add_links internal_links ?s1, None))"
    using f c h by (simp add: scrape_page_def Let_def)
  show "all_results (fst (scrape_page env cfg u s)) = all_results s @ [\<lparr>rec_url = u, rec_text = t\<rparr>]"
    by (cases "find_internal_links env html u") (simp_all add: sp add_links_effect)
  show "data_saved_count (fst (scrape_page env cfg u s)) = Suc (data_saved_count s)"
    by (cases "find_internal_links env html u") (simp_all add: sp add_links_effect)
  show "scrape_page env cfg u s = (add_links ls ?s1, None)"
    if "find_internal_links env html u = Inr ls"
    using that by (simp add: sp)
next
  assume f: "fetch_html env u = Some html"
    and c: "clean_html_text env html = None \<or> clean_html_text env html = Some [] \<or>
      (clean_html_text env html = Some t \<and> int (length t) < min_text_length cfg)"
  from c show "scrape_page env cfg u s = (s, None)"
    using f by (auto simp add: scrape_page_def)
qed

text \<open>
  The claim as stated (saved exactly when the length is at least \<open>min_text_length\<close>)
  fails for an empty text and the threshold 0, which the sidebar allows: the text of
  \<open>/c\<close> has length 0, the threshold is 0, and nothing is saved.
\<close>

theorem threshold_gate_counterexample:
  "fetch_html site ''http://h/c'' = Some ''<c>'' \<and>
   clean_html_text site ''<c>'' = Some [] \<and>
   min_text_length (site_config\<lparr>min_text_length := 0\<rparr>) \<le> int (length ([] :: string)) \<and>
   scrape_page site (site_config\<lparr>min_text_length := 0\<rparr>) ''http://h/c''
       (cleared_state (site_config\<lparr>min_text_length := 0\<rparr>) Map.empty) =
     (cleared_state (site_config\<lparr>min_text_length := 0\<rparr>) Map.empty, None) \<and>
   all_results (cleared_state (site_config\<lparr>min_text_length := 0\<rparr>) Map.empty) = []"
proof -
  have a: "fetch_html site ''http://h/c'' = Some ''<c>''"
    by code_simp
  have b: "clean_html_text site ''<c>'' = Some []"
    by code_simp
  have c: "min_text_length (site_config\<lparr>min_text_length := 0\<rparr>) \<le> int (length ([] :: string))"
    by simp
  have d: "scrape_page site (site_config\<lparr>min_text_length := 0\<rparr>) ''http://h/c''
       (cleared_state (site_config\<lparr>min_text_length := 0\<rparr>) Map.empty) =
     (cleared_state (site_config\<lparr>min_text_length := 0\<rparr>) Map.empty, None)"
    using a b by (simp add: scrape_page_def)
  have e: "all_results (cleared_state (site_config\<lparr>min_text_length := 0\<rparr>) Map.empty) = []"
    by (simp add: cleared_state_def init_state_def)
  from a b c d e show ?thesis by blast
qed

theorem threshold_gate_witness:
  "fetch_html site ''http://h/a'' = Some ''<a>'' \<and>
   clean_html_text site ''<a>'' = Some ''Page A'' \<and>
   min_text_length (site_config\<lparr>min_text_length := 6\<rparr>) \<le> int (length ''Page A'') \<and>
   find_internal_links site ''<a>'' ''http://h/a'' = Inr [''http://h/b'', ''http://h/c''] \<and>
   all_results (fst (scrape_page site (site_config\<lparr>min_text_length := 6\<rparr>) ''http://h/a''
       (cleared_state site_config Map.empty))) = [\<lparr>rec_url = ''http://h/a'', rec_text = ''Page A''\<rparr>] \<and>
   queue (fst (scrape_page site (site_config\<lparr>min_text_length := 6\<rparr>) ''http://h/a''
       (cleared_state site_config Map.empty))) = [''http://h/'', ''http://h/b'', ''http://h/c''] \<and>
   int (length ''Page A'') < min_text_length (site_config\<lparr>min_text_length := 7\<rparr>) \<and>
   scrape_page site (site_config\<lparr>min_text_length := 7\<rparr>) ''http://h/a''
       (cleared_state site_config Map.empty) = (cleared_state site_config Map.empty, None)"
proof -
  have a: "fetch_html site ''http://h/a'' = Some ''<a>''"
    by code_simp
  have b: "clean_html_text site ''<a>'' = Some ''Page A''"
    by code_simp
  have l: "find_internal_links site ''<a>'' ''http://h/a'' = Inr [''http://h/b'', ''http://h/c'']"
    by code_simp
  have c: "all_results (cleared_state site_config Map.empty) = []"
    "queue (cleared_state site_config Map.empty) = [''http://h/'']"
    "visited_urls (cleared_state site_config Map.empty) = {''http://h/''}"
    by (simp_all add: cleared_state_def init_state_def site_config_def)
  show ?thesis
    using threshold_gate [where env = site and u = "''http://h/a''" and html = "''<a>''"
        and t = "''Page A''" and cfg = "site_config\<lparr>min_text_length := 6\<rparr>"
        and s = "cleared_state site_config Map.empty" and ls = "[''http://h/b'', ''http://h/c'']"]
      threshold_gate [where env = site and u = "''http://h/a''" and html = "''<a>''"
        and t = "''Page A''" and cfg = "site_config\<lparr>min_text_length := 7\<rparr>"
        and s = "cleared_state site_config Map.empty" and ls = "[]"]
      a b l c
    by (simp add: add_links_effect)
qed

text \<open>
  C5 (finalization on a mid-run abort), as amended. When an exception escapes an
  iteration of the loop, \<open>crawl_error_occurred\<close> is set and the final write, guarded by
  \<open>if not crawl_error_occurred\<close>, is skipped: the records accumulated so far are still in
  \<open>all_results\<close>, but the output file stays as the clearing at the start left it (empty),
  and the call returns \<open>None\<close>.
\<close>

theorem abort_during_run:
  "open_raises env 0 = None \<and> snd (crawl_loop env cfg (cleared_state cfg fs)) = Some e \<longrightarrow>
     fst (crawl_website_streamlit env cfg fs) = Inr None \<and>
     all_results (snd (crawl_website_streamlit env cfg fs)) =
       all_results (fst (crawl_loop env cfg (cleared_state cfg fs))) \<and>
     crawl_error_occurred (snd (crawl_website_streamlit env cfg fs)) \<and>
     files (snd (crawl_website_streamlit env cfg fs)) = fs(output_file cfg \<mapsto> [])"
proof
  assume a: "open_raises env 0 = None \<and> snd (crawl_loop env cfg (cleared_state cfg fs)) = Some e"
  let ?L = "fst (crawl_loop env cfg (cleared_state cfg fs))"
  have c: "crawl_website_streamlit env cfg fs = (Inr None, ?L\<lparr>crawl_error_occurred := True\<rparr>)"
    using a by (simp add: crawl_unfold finalize_def)
  have f: "files ?L = fs(output_file cfg \<mapsto> [])"
    by (simp add: files_crawl_loop cleared_state_def)
  show "fst (crawl_website_streamlit env cfg fs) = Inr None \<and>
     all_results (snd (crawl_website_streamlit env cfg fs)) = all_results ?L \<and>
     crawl_error_occurred (snd (crawl_website_streamlit env cfg fs)) \<and>
     files (snd (crawl_website_streamlit env cfg fs)) = fs(output_file cfg \<mapsto> [])"
    by (simp add: c f)
qed

text \<open>
  The claim as stated (the accumulator is still flushed after a mid-run exception) fails:
  on the site whose parser raises on \<open>/a\<close>, two records have been accumulated when the
  loop is left, and the output file is empty at the end.
\<close>

theorem abort_during_run_counterexample:
  "snd (crawl_loop site_broken site_config (cleared_state site_config [''out.jsonl'' \<mapsto> ''old''])) =
     Some OtherException \<and>
   all_results (snd (crawl_website_streamlit site_broken site_config [''out.jsonl'' \<mapsto> ''old''])) =
     [\<lparr>rec_url = ''http://h/'', rec_text = ''Home page''\<rparr>,
      \<lparr>rec_url = ''http://h/a'', rec_text = ''Page A''\<rparr>] \<and>
   files (snd (crawl_website_streamlit site_broken site_config [''out.jsonl'' \<mapsto> ''old'']))
     ''out.jsonl'' = Some [] \<and>
   fst (crawl_website_streamlit site_broken site_config [''out.jsonl'' \<mapsto> ''old'']) = Inr None"
  by code_simp

theorem abort_during_run_witness:
  "open_raises site_broken 0 = None \<and>
   snd (crawl_loop site_broken site_config (cleared_state site_config Map.empty)) =
     Some OtherException \<and>
   fst (crawl_website_streamlit site_broken site_config Map.empty) = Inr None \<and>
   files (snd (crawl_website_streamlit site_broken site_config Map.empty)) =
     [output_file site_config \<mapsto> []]"
proof -
  have a: "open_raises site_broken 0 = None"
    by (simp add: site_broken_def site_def)
  have b: "snd (crawl_loop site_broken site_config (cleared_state site_config Map.empty)) =
     Some OtherException"
    by code_simp
  show ?thesis
    using abort_during_run [where env = site_broken and cfg = site_config and fs = Map.empty
        and e = OtherException] a b
    by simp
qed









text \<open>
  C10 (the seed is not normalized). The seed enters the queue and the visited set as it
  is given. Started at \<open>http://h/#top\<close>, whose fragment-stripped form is \<open>http://h/\<close>,
  the crawl of the small site later discovers \<open>http://h/\<close> from the home page's link to
  itself, enqueues it, fetches it, and saves the home page a second time under that
  URL: URLs are told apart as strings.
\<close>

theorem seed_not_normalized:
  "queue (init_state u fs) = [u] \<and> visited_urls (init_state u fs) = {u} \<and>
   urlparse site ''http://h/#top'' =
     Some \<lparr>scheme = ''http'', netloc = ''h'', path = ''/'', params = [], query = [],
            fragment = ''top''\<rparr> \<and>
   geturl site \<lparr>scheme = ''http'', netloc = ''h'', path = ''/'', params = [], query = [],
            fragment = []\<rparr> = ''http://h/'' \<and>
   enqueued (trace (snd (crawl_website_streamlit site
       (site_config\<lparr>start_url := ''http://h/#top''\<rparr>) Map.empty))) =
     [''http://h/#top'', ''http://h/a'', ''http://h/b'', ''http://h/'', ''http://h/c''] \<and>
   fetched (trace (snd (crawl_website_streamlit site
       (site_config\<lparr>start_url := ''http://h/#top''\<rparr>) Map.empty))) =
     [''http://h/#top'', ''http://h/a'', ''http://h/b'', ''http://h/'', ''http://h/c''] \<and>
   all_results (snd (crawl_website_streamlit site
       (site_config\<lparr>start_url := ''http://h/#top''\<rparr>) Map.empty)) =
     [\<lparr>rec_url = ''http://h/#top'', rec_text = ''Home page''\<rparr>,
      \<lparr>rec_url = ''http://h/a'', rec_text = ''Page A''\<rparr>,
      \<lparr>rec_url = ''http://h/'', rec_text = ''Home page''\<rparr>]"
proof -
  have a: "queue (init_state u fs) = [u] \<and> visited_urls (init_state u fs) = {u}"
    by (simp add: init_state_def)
  have b: "urlparse site ''http://h/#top'' =
     Some \<lparr>scheme = ''http'', netloc = ''h'', path = ''/'', params = [], query = [],
            fragment = ''top''\<rparr>"
    by (simp add: site_def site_urlparse_def)
  have c: "geturl site \<lparr>scheme = ''http'', netloc = ''h'', path = ''/'', params = [], query = [],
            fragment = []\<rparr> = ''http://h/''"
    by (simp add: site_def site_geturl_def)
  have d: "enqueued (trace (snd (crawl_website_streamlit site
       (site_config\<lparr>start_url := ''http://h/#top''\<rparr>) Map.empty))) =
     [''http://h/#top'', ''http://h/a'', ''http://h/b'', ''http://h/'', ''http://h/c'']"
    by code_simp
  have e: "fetched (trace (snd (crawl_website_streamlit site
       (site_config\<lparr>start_url := ''http://h/#top''\<rparr>) Map.empty))) =
     [''http://h/#top'', ''http://h/a'', ''http://h/b'', ''http://h/'', ''http://h/c'']"
    by code_simp
  have f: "all_results (snd (crawl_website_streamlit site
       (site_config\<lparr>start_url := ''http://h/#top''\<rparr>) Map.empty)) =
     [\<lparr>rec_url = ''http://h/#top'', rec_text = ''Home page''\<rparr>,
      \<lparr>rec_url = ''http://h/a'', rec_text = ''Page A''\<rparr>,
      \<lparr>rec_url = ''http://h/'', rec_text = ''Home page''\<rparr>]"
    by code_simp
  from a b c d e f show ?thesis by blast
qed

end
